theory Spec2Isabelle
  imports Main
begin

section \<open>Data model of \<^verbatim>\<open>backend/iam/models.py\<close>\<close>

text \<open>
  Django model instances are compared by primary key, so a model instance is identified
  here by its id (a natural number standing for the UUID) and its attributes are read
  from the store. A \<^verbatim>\<open>Permission\<close> is identified by its codename, a string:
  \<^verbatim>\<open>Permission.objects.get(codename=c)\<close> is the token \<open>c\<close>. The role of a role
  assignment is a non-null foreign key; the assignment carries the role's row.
\<close>

datatype ContentType = ROOT | DOMAIN | ENCLAVE

datatype error =
  NotImplementedError | AttributeError | DoesNotExist | MultipleObjectsReturned | IntegrityError

record folder =
  folder_id :: nat
  folder_name :: string
  content_type :: ContentType
  parent_folder :: "nat option"
  folder_builtin :: bool

record user_group =
  ug_id :: nat
  ug_name :: string
  ug_folder :: nat
  ug_builtin :: bool

record role =
  role_name :: string
  permissions :: "string list"
  role_builtin :: bool

record role_assignment =
  ra_id :: nat
  perimeter_folders :: "nat list"
  ra_user :: "nat option"
  ra_user_group :: "nat option"
  ra_role :: role
  is_recursive :: bool
  ra_builtin :: bool
  ra_folder :: nat

text \<open>
  The store: the tables the module reads and writes. \<open>memberships\<close> is the many-to-many
  table behind \<^verbatim>\<open>User.user_groups\<close>, as pairs (user id, group id).
\<close>

record store =
  folders :: "folder list"
  user_groups :: "user_group list"
  memberships :: "(nat \<times> nat) list"
  roles :: "role list"
  role_assignments :: "role_assignment list"

datatype principal = User nat | UserGroup nat

section \<open>Folder tree\<close>

definition folder_by_id :: "store \<Rightarrow> nat \<Rightarrow> folder option" where
  "folder_by_id s i = find (\<lambda>x. folder_id x = i) (folders s)"

text \<open>\<^verbatim>\<open>f.parent_folder\<close>: the nullable foreign key of the row of \<open>f\<close>.\<close>

definition parent_of :: "store \<Rightarrow> nat \<Rightarrow> nat option" where
  "parent_of s f = (case folder_by_id s f of None \<Rightarrow> None | Some x \<Rightarrow> parent_folder x)"

definition content_type_of :: "store \<Rightarrow> nat \<Rightarrow> ContentType option" where
  "content_type_of s f = map_option content_type (folder_by_id s f)"

text \<open>\<^verbatim>\<open>folder.folder_set.all()\<close>: the rows whose parent is \<open>f\<close>.\<close>

definition folder_set :: "store \<Rightarrow> nat \<Rightarrow> nat list" where
  "folder_set s f = map folder_id (filter (\<lambda>x. parent_folder x = Some f) (folders s))"

text \<open>
  \<^verbatim>\<open>sub_folders_in\<close>, the recursive generator inside \<^verbatim>\<open>get_sub_folders\<close>. The argument
  is the list its \<^verbatim>\<open>for\<close> loop still has to visit: each \<open>sub_folder\<close> is yielded,
  then everything the recursive call on it yields, then the loop goes on. A traversal
  that never ends is the value \<open>None\<close>.
\<close>

partial_function (option) sub_folders_in :: "store \<Rightarrow> nat list \<Rightarrow> nat list option" where
  "sub_folders_in s fs =
     (case fs of
        [] \<Rightarrow> Some []
      | sub_folder # rest \<Rightarrow>
          Option.bind (sub_folders_in s (folder_set s sub_folder)) (\<lambda>inner.
          Option.bind (sub_folders_in s rest) (\<lambda>outer.
          Some (sub_folder # inner @ outer))))"

definition get_sub_folders :: "store \<Rightarrow> nat \<Rightarrow> nat list option" where
  "get_sub_folders s f = sub_folders_in s (folder_set s f)"

text \<open>\<^verbatim>\<open>get_parent_folders\<close>: the generator walking \<^verbatim>\<open>parent_folder\<close> until it is null.\<close>

partial_function (option) get_parent_folders :: "store \<Rightarrow> nat \<Rightarrow> nat list option" where
  "get_parent_folders s current_folder =
     (case parent_of s current_folder of
        None \<Rightarrow> Some []
      | Some p \<Rightarrow> Option.bind (get_parent_folders s p) (\<lambda>rest. Some (p # rest)))"

text \<open>\<^verbatim>\<open>_get_root_folder\<close>: the unique ROOT folder; any exception of the lookup gives None.\<close>

definition get_root_folder :: "store \<Rightarrow> nat option" where
  "get_root_folder s =
     (case filter (\<lambda>x. content_type x = ROOT) (folders s) of
        [x] \<Rightarrow> Some (folder_id x)
      | _ \<Rightarrow> None)"

section \<open>Role assignments of a principal\<close>

text \<open>\<^verbatim>\<open>principal.roleassignment_set.all()\<close> and \<^verbatim>\<open>principal.user_groups.all()\<close>.\<close>

definition roleassignment_set :: "store \<Rightarrow> principal \<Rightarrow> role_assignment list" where
  "roleassignment_set s p =
     (case p of
        User u \<Rightarrow> filter (\<lambda>ra. ra_user ra = Some u) (role_assignments s)
      | UserGroup g \<Rightarrow> filter (\<lambda>ra. ra_user_group ra = Some g) (role_assignments s))"

definition user_groups_all :: "store \<Rightarrow> nat \<Rightarrow> nat list" where
  "user_groups_all s u = map snd (filter (\<lambda>m. fst m = u) (memberships s))"

text \<open>Only a user has the attribute \<^verbatim>\<open>user_groups\<close>.\<close>

definition get_role_assignments :: "store \<Rightarrow> principal \<Rightarrow> role_assignment list" where
  "get_role_assignments s p =
     (let assignments = roleassignment_set s p;
          assignments =
            (case p of
               User u \<Rightarrow>
                 assignments @
                 concat (map (\<lambda>g. roleassignment_set s (UserGroup g)) (user_groups_all s u))
             | UserGroup g \<Rightarrow> assignments)
      in assignments @ roleassignment_set s p)"

section \<open>Single access decision\<close>

definition add_tag_permission :: string where
  "add_tag_permission = ''add_filteringlabel''"

text \<open>
  The inner \<^verbatim>\<open>while f is not None\<close> loop of \<^verbatim>\<open>is_access_allowed\<close> for one role
  assignment, with the loop variable \<open>f\<close> as first argument: \<open>Some True\<close> is its
  \<^verbatim>\<open>return True\<close>, \<open>Some False\<close> is leaving the loop.
\<close>

partial_function (option) perimeter_walk ::
  "nat option \<Rightarrow> store \<Rightarrow> role_assignment \<Rightarrow> string \<Rightarrow> bool option" where
  "perimeter_walk f s ra perm =
     (case f of
        None \<Rightarrow> Some False
      | Some g \<Rightarrow>
          if g \<in> set (perimeter_folders ra) \<and> perm \<in> set (permissions (ra_role ra))
          then Some True
          else perimeter_walk (parent_of s g) s ra perm)"

fun is_access_allowed_loop ::
  "store \<Rightarrow> role_assignment list \<Rightarrow> string \<Rightarrow> nat \<Rightarrow> bool option" where
  "is_access_allowed_loop s [] perm folder = Some False"
| "is_access_allowed_loop s (ra # ras) perm folder =
     (if perm = add_tag_permission \<and> perm \<in> set (permissions (ra_role ra)) then Some True
      else case perimeter_walk (Some folder) s ra perm of
             None \<Rightarrow> None
           | Some True \<Rightarrow> Some True
           | Some False \<Rightarrow> is_access_allowed_loop s ras perm folder)"

definition is_access_allowed :: "store \<Rightarrow> principal \<Rightarrow> string \<Rightarrow> nat \<Rightarrow> bool option" where
  "is_access_allowed s user perm folder =
     is_access_allowed_loop s (get_role_assignments s user) perm folder"

text \<open>
  \<^verbatim>\<open>get_permissions\<close>: the dictionary from codename to \<^verbatim>\<open>{"str": str(p)}\<close>; the text
  of a permission is a parameter.
\<close>

definition get_permissions_of ::
  "(string \<Rightarrow> string) \<Rightarrow> role_assignment list \<Rightarrow> (string \<rightharpoonup> (string \<times> string) list)" where
  "get_permissions_of str ras =
     fold (\<lambda>ra permissions'.
            fold (\<lambda>p d. d(p \<mapsto> [(''str'', str p)])) (permissions (ra_role ra)) permissions')
          ras Map.empty"

definition get_permissions ::
  "(string \<Rightarrow> string) \<Rightarrow> store \<Rightarrow> principal \<Rightarrow> (string \<rightharpoonup> (string \<times> string) list)" where
  "get_permissions str s p = get_permissions_of str (get_role_assignments s p)"

section \<open>Accessible folders\<close>

text \<open>
  Python sets that the code iterates are lists here; a list built from a set is
  duplicate-free and its order is the model's choice, the source leaves it open.
  \<open>add_folders\<close> is the loop over \<^verbatim>\<open>ra.perimeter_folders.all()\<close> and
  \<open>accessible_loop\<close> the loop over the selected role assignments; \<open>folders_set\<close> is
  the set both update.
\<close>

fun add_folders :: "store \<Rightarrow> nat list \<Rightarrow> nat list \<Rightarrow> nat list option" where
  "add_folders s [] folders_set = Some folders_set"
| "add_folders s (f # fs) folders_set =
     Option.bind (get_sub_folders s f) (\<lambda>subs. add_folders s fs (folders_set @ f # subs))"

fun accessible_loop :: "store \<Rightarrow> role_assignment list \<Rightarrow> nat list \<Rightarrow> nat list option" where
  "accessible_loop s [] folders_set = Some folders_set"
| "accessible_loop s (ra # ras) folders_set =
     Option.bind (add_folders s (perimeter_folders ra) folders_set) (accessible_loop s ras)"

text \<open>
  The argument \<^verbatim>\<open>content_type\<close> is tested for truth: \<open>None\<close> stands for a null or
  empty value, for which every folder passes.
\<close>

definition get_accessible_folders ::
  "store \<Rightarrow> nat \<Rightarrow> principal \<Rightarrow> ContentType option \<Rightarrow> string \<Rightarrow> nat list option" where
  "get_accessible_folders s folder user ctype codename =
     Option.bind
       (accessible_loop s
          (filter (\<lambda>x. ''view_folder'' \<in> set (permissions (ra_role x)) \<and>
                        codename \<in> set (permissions (ra_role x)))
             (get_role_assignments s user)) [])
       (\<lambda>folders_set.
     Option.bind (get_sub_folders s folder) (\<lambda>subs.
       let perimeter = folder # subs
       in Some (filter (\<lambda>x. (case ctype of None \<Rightarrow> True
                                | Some c \<Rightarrow> content_type_of s x = Some c) \<and>
                             x \<in> set perimeter)
                  (remdups folders_set))))"

section \<open>Accessible objects\<close>

text \<open>
  A model class is given by the attributes the code probes with \<^verbatim>\<open>hasattr\<close> and by its
  table. \<open>class_name\<close> is \<^verbatim>\<open>object_type.__name__.lower()\<close>. A row carries the folder
  each of the filters \<^verbatim>\<open>folder=\<close>, \<^verbatim>\<open>risk_assessment__folder=\<close>, \<^verbatim>\<open>entity__folder=\<close>
  and \<^verbatim>\<open>provider_entity__folder=\<close> compares with.
\<close>

record obj =
  obj_id :: nat
  obj_folder :: "nat option"
  risk_assessment_folder :: "nat option"
  entity_folder :: "nat option"
  provider_entity_folder :: "nat option"
  is_published :: bool

record object_type =
  class_name :: string
  has_folder :: bool
  has_risk_assessment :: bool
  has_entity :: bool
  has_provider_entity :: bool
  has_parent_folder :: bool
  has_is_published :: bool
  objects :: "obj list"

text \<open>The \<^verbatim>\<open>if\<close>/\<^verbatim>\<open>elif\<close> chain computing \<^verbatim>\<open>objects_ids\<close> for a folder \<open>f\<close>.\<close>

definition objects_ids :: "object_type \<Rightarrow> nat \<Rightarrow> error + nat list" where
  "objects_ids ot f =
     (if has_folder ot then
        Inr (map obj_id (filter (\<lambda>x. obj_folder x = Some f) (objects ot)))
      else if has_risk_assessment ot then
        Inr (map obj_id (filter (\<lambda>x. risk_assessment_folder x = Some f) (objects ot)))
      else if has_entity ot then
        Inr (map obj_id (filter (\<lambda>x. entity_folder x = Some f) (objects ot)))
      else if has_provider_entity ot then
        Inr (map obj_id (filter (\<lambda>x. provider_entity_folder x = Some f) (objects ot)))
      else if has_parent_folder ot then Inr [f]
      else Inl NotImplementedError)"

text \<open>\<^verbatim>\<open>object_type.objects.filter(folder=my_folder2, is_published=True)\<close>, as ids.\<close>

definition published_ids :: "object_type \<Rightarrow> nat \<Rightarrow> nat list" where
  "published_ids ot f =
     map obj_id (filter (\<lambda>x. obj_folder x = Some f \<and> is_published x) (objects ot))"

text \<open>
  The sub folders of every folder of \<^verbatim>\<open>ra_perimeter\<close>, and the perimeter of an
  assignment after the update under \<^verbatim>\<open>if ra.is_recursive\<close>.
\<close>

fun sub_folders_of_all :: "store \<Rightarrow> nat list \<Rightarrow> nat list option" where
  "sub_folders_of_all s [] = Some []"
| "sub_folders_of_all s (f # fs) =
     Option.bind (get_sub_folders s f) (\<lambda>subs.
     Option.bind (sub_folders_of_all s fs) (\<lambda>rest. Some (subs @ rest)))"

definition ra_perimeter_of :: "store \<Rightarrow> role_assignment \<Rightarrow> nat list option" where
  "ra_perimeter_of s ra =
     (if is_recursive ra
      then Option.bind (sub_folders_of_all s (perimeter_folders ra))
             (\<lambda>subs. Some (perimeter_folders ra @ subs))
      else Some (perimeter_folders ra))"

text \<open>
  The loop filling \<^verbatim>\<open>result_folders\<close>. The dictionary of sets is the list of its
  (folder, permission) pairs: a folder is a key when it has a pair, and
  \<^verbatim>\<open>p in result_folders[f]\<close> is membership of \<open>(f, p)\<close>.
\<close>

fun grant_loop ::
  "store \<Rightarrow> nat list \<Rightarrow> string list \<Rightarrow> role_assignment list \<Rightarrow> (nat \<times> string) list \<Rightarrow>
   (nat \<times> string) list option" where
  "grant_loop s perimeter perms [] result_folders = Some result_folders"
| "grant_loop s perimeter perms (ra # ras) result_folders =
     Option.bind (ra_perimeter_of s ra) (\<lambda>ra_perimeter.
       let target_folders = filter (\<lambda>f. f \<in> set ra_perimeter) perimeter;
           granted = filter (\<lambda>p. p \<in> set (permissions (ra_role ra))) perms
       in grant_loop s perimeter perms ras
            (result_folders @ concat (map (\<lambda>p. map (\<lambda>f. (f, p)) target_folders) granted)))"

text \<open>The loop over the keys of \<^verbatim>\<open>result_folders\<close> that fills the three result sets.\<close>

fun collect_loop ::
  "object_type \<Rightarrow> (nat \<times> string) list \<Rightarrow> string \<Rightarrow> string \<Rightarrow> string \<Rightarrow> nat list \<Rightarrow>
   nat list \<times> nat list \<times> nat list \<Rightarrow> error + nat list \<times> nat list \<times> nat list" where
  "collect_loop ot result_folders pv pc pd [] acc = Inr acc"
| "collect_loop ot result_folders pv pc pd (f # fs) (result_view, result_change, result_delete) =
     (case objects_ids ot f of
        Inl e \<Rightarrow> Inl e
      | Inr ids \<Rightarrow>
          collect_loop ot result_folders pv pc pd fs
            (if (f, pv) \<in> set result_folders then result_view @ ids else result_view,
             if (f, pc) \<in> set result_folders then result_change @ ids else result_change,
             if (f, pd) \<in> set result_folders then result_delete @ ids else result_delete))"

text \<open>
  The publication overlay: the \<^verbatim>\<open>while my_folder2\<close> loop, with the loop variable as
  first argument, and the loop over \<^verbatim>\<open>folders_with_local_view\<close>.
\<close>

partial_function (option) published_walk ::
  "nat option \<Rightarrow> store \<Rightarrow> object_type \<Rightarrow> nat list \<Rightarrow> nat list option" where
  "published_walk my_folder2 s ot result_view =
     (case my_folder2 of
        None \<Rightarrow> Some result_view
      | Some g \<Rightarrow> published_walk (parent_of s g) s ot (result_view @ published_ids ot g))"

fun overlay_loop :: "store \<Rightarrow> object_type \<Rightarrow> nat list \<Rightarrow> nat list \<Rightarrow> nat list option" where
  "overlay_loop s ot [] result_view = Some result_view"
| "overlay_loop s ot (my_folder # rest) result_view =
     (if content_type_of s my_folder \<noteq> Some ENCLAVE
      then Option.bind (published_walk (parent_of s my_folder) s ot result_view)
             (overlay_loop s ot rest)
      else overlay_loop s ot rest result_view)"

definition get_accessible_object_ids ::
  "store \<Rightarrow> nat \<Rightarrow> principal \<Rightarrow> object_type \<Rightarrow>
   (error + nat list \<times> nat list \<times> nat list) option" where
  "get_accessible_object_ids s folder user ot =
     (let permission_view = ''view_'' @ class_name ot;
          permission_change = ''change_'' @ class_name ot;
          permission_delete = ''delete_'' @ class_name ot;
          perms = [permission_view, permission_change, permission_delete]
      in Option.bind (get_sub_folders s folder) (\<lambda>subs.
           let perimeter = folder # subs;
               ras = filter (\<lambda>ra. ''view_folder'' \<in> set (permissions (ra_role ra)))
                       (get_role_assignments s user)
           in Option.bind (grant_loop s perimeter perms ras []) (\<lambda>result_folders.
                let keys = remdups (map fst result_folders)
                in case collect_loop ot result_folders permission_view permission_change
                          permission_delete keys ([], [], []) of
                     Inl e \<Rightarrow> Some (Inl e)
                   | Inr (result_view, result_change, result_delete) \<Rightarrow>
                       if has_is_published ot \<and> has_folder ot then
                         Option.bind
                           (overlay_loop s ot
                              (filter (\<lambda>f. (f, permission_view) \<in> set result_folders) keys)
                              result_view)
                           (\<lambda>result_view.
                              Some (Inr (remdups result_view, remdups result_change,
                                         remdups result_delete)))
                       else Some (Inr (remdups result_view, remdups result_change,
                                       remdups result_delete)))))"

section \<open>Saving an object that publishes in the root folder\<close>

text \<open>
  \<^verbatim>\<open>PublishInRootFolderMixin.save\<close>. Reading the attribute \<^verbatim>\<open>folder\<close> of an instance
  whose class has none raises \<^verbatim>\<open>AttributeError\<close>. \<open>super_save\<close> is the inherited
  \<^verbatim>\<open>save\<close>, which writes the row under its primary key.
\<close>

definition super_save :: "object_type \<Rightarrow> obj \<Rightarrow> object_type" where
  "super_save ot self =
     ot\<lparr>objects := self # filter (\<lambda>x. obj_id x \<noteq> obj_id self) (objects ot)\<rparr>"

definition save :: "store \<Rightarrow> object_type \<Rightarrow> obj \<Rightarrow> error + object_type" where
  "save s ot self =
     (if \<not> has_folder ot then Inl AttributeError
      else if obj_folder self = get_root_folder s \<and> has_is_published ot \<and> \<not> is_published self
           then Inr (super_save ot (self\<lparr>is_published := True\<rparr>))
           else Inr (super_save ot self))"

section \<open>Provisioning a domain\<close>

text \<open>
  The enumerations \<^verbatim>\<open>UserGroupCodename\<close> and \<^verbatim>\<open>RoleCodename\<close> come from
  \<^verbatim>\<open>core.utils\<close>, outside this module: their values are a parameter.
\<close>

record codenames =
  ug_READER :: string
  ug_APPROVER :: string
  ug_ANALYST :: string
  ug_DOMAIN_MANAGER :: string
  rl_READER :: string
  rl_APPROVER :: string
  rl_ANALYST :: string
  rl_DOMAIN_MANAGER :: string

definition fresh_id :: "nat list \<Rightarrow> nat" where
  "fresh_id ids = Suc (fold max ids 0)"

text \<open>\<^verbatim>\<open>UserGroup.objects.create(name=n, folder=folder, builtin=True)\<close>.\<close>

definition create_user_group :: "string \<Rightarrow> nat \<Rightarrow> store \<Rightarrow> nat \<times> store" where
  "create_user_group n folder s =
     (let i = fresh_id (map ug_id (user_groups s))
      in (i, s\<lparr>user_groups := user_groups s @
                 [\<lparr>ug_id = i, ug_name = n, ug_folder = folder, ug_builtin = True\<rparr>]\<rparr>))"

text \<open>\<^verbatim>\<open>Role.objects.get(name=n)\<close>: exactly one row, or an exception.\<close>

definition get_role :: "store \<Rightarrow> string \<Rightarrow> error + role" where
  "get_role s n =
     (case filter (\<lambda>r. role_name r = n) (roles s) of
        [] \<Rightarrow> Inl DoesNotExist
      | [r] \<Rightarrow> Inr r
      | _ \<Rightarrow> Inl MultipleObjectsReturned)"

text \<open>\<^verbatim>\<open>ra.perimeter_folders.add(folder)\<close> on the assignment with id \<open>i\<close>.\<close>

definition perimeter_folders_add :: "nat \<Rightarrow> nat \<Rightarrow> store \<Rightarrow> store" where
  "perimeter_folders_add i folder s =
     s\<lparr>role_assignments :=
         map (\<lambda>ra. if ra_id ra = i
                   then ra\<lparr>perimeter_folders := perimeter_folders ra @ [folder]\<rparr> else ra)
           (role_assignments s)\<rparr>"

text \<open>
  One \<^verbatim>\<open>RoleAssignment.objects.create(...)\<close> of \<^verbatim>\<open>create_default_ug_and_ra\<close> followed
  by the \<^verbatim>\<open>add\<close> to its perimeter. The keyword arguments are evaluated in order: the
  role lookup may raise, then \<^verbatim>\<open>get_root_folder\<close> may give \<^verbatim>\<open>None\<close>, which the
  non-null column \<^verbatim>\<open>folder\<close> rejects.
\<close>

definition create_builtin_ra ::
  "nat \<Rightarrow> string \<Rightarrow> nat \<Rightarrow> store \<Rightarrow> error option \<times> store" where
  "create_builtin_ra ug role_codename folder s =
     (case get_role s role_codename of
        Inl e \<Rightarrow> (Some e, s)
      | Inr r \<Rightarrow>
          (case get_root_folder s of
             None \<Rightarrow> (Some IntegrityError, s)
           | Some root \<Rightarrow>
               let i = fresh_id (map ra_id (role_assignments s));
                   s = s\<lparr>role_assignments := role_assignments s @
                         [\<lparr>ra_id = i, perimeter_folders = [], ra_user = None,
                           ra_user_group = Some ug, ra_role = r, is_recursive = True,
                           ra_builtin = True, ra_folder = root\<rparr>]\<rparr>
               in (None, perimeter_folders_add i folder s)))"

text \<open>
  \<^verbatim>\<open>create_default_ug_and_ra\<close>. The result is the exception that left the function, if
  any, and the store as the function left it: the function opens no transaction.
\<close>

definition create_default_ug_and_ra ::
  "codenames \<Rightarrow> nat \<Rightarrow> store \<Rightarrow> error option \<times> store" where
  "create_default_ug_and_ra cn folder s =
     (if content_type_of s folder = Some DOMAIN then
        let (readers, s) = create_user_group (ug_READER cn) folder s;
            (approvers, s) = create_user_group (ug_APPROVER cn) folder s;
            (analysts, s) = create_user_group (ug_ANALYST cn) folder s;
            (managers, s) = create_user_group (ug_DOMAIN_MANAGER cn) folder s
        in case create_builtin_ra readers (rl_READER cn) folder s of
             (Some e, s) \<Rightarrow> (Some e, s)
           | (None, s) \<Rightarrow>
        (case create_builtin_ra approvers (rl_APPROVER cn) folder s of
             (Some e, s) \<Rightarrow> (Some e, s)
           | (None, s) \<Rightarrow>
        (case create_builtin_ra analysts (rl_ANALYST cn) folder s of
             (Some e, s) \<Rightarrow> (Some e, s)
           | (None, s) \<Rightarrow> create_builtin_ra managers (rl_DOMAIN_MANAGER cn) folder s))
      else (None, s))"

section \<open>Relations of the tree\<close>

text \<open>
  \<open>parent_rel\<close> relates a folder's parent to the folder, \<open>child_rel\<close> a folder to each
  member of its \<open>folder_set\<close>. Ancestors and descendants are their transitive closures.
\<close>

definition parent_rel :: "store \<Rightarrow> (nat \<times> nat) set" where
  "parent_rel s = {(p, c). parent_of s c = Some p}"

definition child_rel :: "store \<Rightarrow> (nat \<times> nat) set" where
  "child_rel s = {(f, g). g \<in> set (folder_set s f)}"

definition ancestors :: "store \<Rightarrow> nat \<Rightarrow> nat set" where
  "ancestors s f = {a. (a, f) \<in> (parent_rel s)\<^sup>+}"

definition descendants :: "store \<Rightarrow> nat \<Rightarrow> nat set" where
  "descendants s f = {g. (f, g) \<in> (child_rel s)\<^sup>+}"

section \<open>Auxiliary notions for the statements\<close>

text \<open>The assignments a user inherits from its groups; a group inherits none.\<close>

definition group_role_assignments :: "store \<Rightarrow> principal \<Rightarrow> role_assignment list" where
  "group_role_assignments s p =
     (case p of
        User u \<Rightarrow> concat (map (\<lambda>g. roleassignment_set s (UserGroup g)) (user_groups_all s u))
      | UserGroup g \<Rightarrow> [])"

text \<open>The store in which the \<open>is_recursive\<close> flag of assignment \<open>i\<close> is negated.\<close>

definition flip_ra :: "nat \<Rightarrow> role_assignment \<Rightarrow> role_assignment" where
  "flip_ra i ra = (if ra_id ra = i then ra\<lparr>is_recursive := \<not> is_recursive ra\<rparr> else ra)"

definition flip_is_recursive :: "nat \<Rightarrow> store \<Rightarrow> store" where
  "flip_is_recursive i s = s\<lparr>role_assignments := map (flip_ra i) (role_assignments s)\<rparr>"

text \<open>
  The scope of a query folder, and the set of accessible folders as the specification
  words it: the perimeter folders, with all their descendants, of the assignments
  whose role holds both \<^verbatim>\<open>view_folder\<close> and the codename, cut down to the scope and
  to the content type when one is given.
\<close>

definition scope :: "store \<Rightarrow> nat \<Rightarrow> nat set" where
  "scope s folder = insert folder (descendants s folder)"

definition accessible_folders_spec ::
  "store \<Rightarrow> nat \<Rightarrow> principal \<Rightarrow> ContentType option \<Rightarrow> string \<Rightarrow> nat set" where
  "accessible_folders_spec s folder user ctype codename =
     {x \<in> (\<Union>ra \<in> {ra \<in> set (get_role_assignments s user).
                      ''view_folder'' \<in> set (permissions (ra_role ra)) \<and>
                      codename \<in> set (permissions (ra_role ra))}.
             \<Union>f \<in> set (perimeter_folders ra). insert f (descendants s f)) \<inter> scope s folder.
        case ctype of None \<Rightarrow> True | Some c \<Rightarrow> content_type_of s x = Some c}"

text \<open>
  The folders an assignment reaches in \<open>get_accessible_object_ids\<close>, the folders of the
  scope in which an assignment holding \<^verbatim>\<open>view_folder\<close> grants a permission, and the ids
  of the objects of a class located in a folder.
\<close>

definition ra_scope :: "store \<Rightarrow> role_assignment \<Rightarrow> nat set" where
  "ra_scope s ra =
     set (perimeter_folders ra) \<union>
     (if is_recursive ra then (\<Union>f \<in> set (perimeter_folders ra). descendants s f) else {})"

definition granted_folders :: "store \<Rightarrow> nat \<Rightarrow> principal \<Rightarrow> string \<Rightarrow> nat set" where
  "granted_folders s folder user p =
     {f \<in> scope s folder.
        \<exists>ra \<in> set (get_role_assignments s user).
          ''view_folder'' \<in> set (permissions (ra_role ra)) \<and>
          p \<in> set (permissions (ra_role ra)) \<and> f \<in> ra_scope s ra}"

definition located :: "object_type \<Rightarrow> nat \<Rightarrow> nat set" where
  "located ot f = (case objects_ids ot f of Inl e \<Rightarrow> {} | Inr ids \<Rightarrow> set ids)"

text \<open>A class for which the chain of \<open>objects_ids\<close> finds a branch.\<close>

definition supported :: "object_type \<Rightarrow> bool" where
  "supported ot \<longleftrightarrow> has_folder ot \<or> has_risk_assessment ot \<or> has_entity ot \<or>
     has_provider_entity ot \<or> has_parent_folder ot"

text \<open>
  The ids the three result sets hold: those of the objects located in a folder that
  grants the permission, and for the view set those of the published objects whose
  folder is an ancestor of a folder granting the view permission that is no enclave.
\<close>

definition local_ids :: "store \<Rightarrow> nat \<Rightarrow> principal \<Rightarrow> object_type \<Rightarrow> string \<Rightarrow> nat set" where
  "local_ids s folder user ot p = (\<Union>f \<in> granted_folders s folder user p. located ot f)"

definition overlay_ids :: "store \<Rightarrow> nat \<Rightarrow> principal \<Rightarrow> object_type \<Rightarrow> nat set" where
  "overlay_ids s folder user ot =
     (\<Union>f \<in> {f \<in> granted_folders s folder user (''view_'' @ class_name ot).
              content_type_of s f \<noteq> Some ENCLAVE}.
        \<Union>a \<in> ancestors s f. set (published_ids ot a))"

section \<open>A sample store\<close>

text \<open>
  Root folder 20 with the domains 21 and 24 below it, domain 22 and enclave 23 below 21.
  User 7 is a member of group 10. Assignment 100 gives user 7 the reader role on
  folder 21, not recursively; assignment 101 gives group 10 the tagging role on folder 24;
  assignment 102 gives user 8 the reader role on the enclave 23.
\<close>

definition reader_role :: role where
  "reader_role = \<lparr>role_name = ''reader'',
     permissions = [''view_folder'', ''view_asset''], role_builtin = True\<rparr>"

definition tagger_role :: role where
  "tagger_role = \<lparr>role_name = ''tagger'',
     permissions = [''add_filteringlabel''], role_builtin = False\<rparr>"

definition ra100 :: role_assignment where
  "ra100 = \<lparr>ra_id = 100, perimeter_folders = [21], ra_user = Some 7, ra_user_group = None,
     ra_role = reader_role, is_recursive = False, ra_builtin = False, ra_folder = 20\<rparr>"

definition ra101 :: role_assignment where
  "ra101 = \<lparr>ra_id = 101, perimeter_folders = [24], ra_user = None, ra_user_group = Some 10,
     ra_role = tagger_role, is_recursive = True, ra_builtin = False, ra_folder = 20\<rparr>"

definition ra102 :: role_assignment where
  "ra102 = \<lparr>ra_id = 102, perimeter_folders = [23], ra_user = Some 8, ra_user_group = None,
     ra_role = reader_role, is_recursive = False, ra_builtin = False, ra_folder = 20\<rparr>"

definition ex_store :: store where
  "ex_store = \<lparr>
     folders =
       [\<lparr>folder_id = 20, folder_name = ''Global'', content_type = ROOT,
          parent_folder = None, folder_builtin = True\<rparr>,
        \<lparr>folder_id = 21, folder_name = ''A'', content_type = DOMAIN,
          parent_folder = Some 20, folder_builtin = False\<rparr>,
        \<lparr>folder_id = 22, folder_name = ''B'', content_type = DOMAIN,
          parent_folder = Some 21, folder_builtin = False\<rparr>,
        \<lparr>folder_id = 23, folder_name = ''E'', content_type = ENCLAVE,
          parent_folder = Some 21, folder_builtin = False\<rparr>,
        \<lparr>folder_id = 24, folder_name = ''C'', content_type = DOMAIN,
          parent_folder = Some 20, folder_builtin = False\<rparr>],
     user_groups =
       [\<lparr>ug_id = 10, ug_name = ''taggers'', ug_folder = 21, ug_builtin = False\<rparr>],
     memberships = [(7, 10)],
     roles = [reader_role, tagger_role],
     role_assignments = [ra100, ra101, ra102]\<rparr>"

text \<open>
  The class of assets, with a folder and a publication flag: assets 31 (published) and 32
  in the root folder, 33 and 35 (published) in folder 21, 34 in folder 22, 36 in the
  enclave 23.
\<close>

definition asset :: "nat \<Rightarrow> nat \<Rightarrow> bool \<Rightarrow> obj" where
  "asset i f p = \<lparr>obj_id = i, obj_folder = Some f, risk_assessment_folder = None,
     entity_folder = None, provider_entity_folder = None, is_published = p\<rparr>"

definition ex_assets :: object_type where
  "ex_assets = \<lparr>class_name = ''asset'', has_folder = True, has_risk_assessment = False,
     has_entity = False, has_provider_entity = False, has_parent_folder = False,
     has_is_published = True,
     objects = [asset 31 20 True, asset 32 20 False, asset 33 21 False, asset 34 22 False,
                asset 35 21 True, asset 36 23 False]\<rparr>"

section \<open>Properties of the folder tree and of the access decision\<close>

lemma parent_of_SomeD:
  "parent_of s c = Some p \<Longrightarrow> \<exists>x \<in> set (folders s). folder_id x = c \<and> parent_folder x = Some p"
  by (auto simp: parent_of_def folder_by_id_def find_Some_iff split: option.splits)

lemma parent_rel_child_rel: "parent_rel s \<subseteq> child_rel s"
  using parent_of_SomeD by (fastforce simp: parent_rel_def child_rel_def folder_set_def)

lemma finite_child_rel: "finite (child_rel s)"
proof -
  have "child_rel s \<subseteq> (\<lambda>x. (the (parent_folder x), folder_id x)) ` set (folders s)"
    by (auto simp: child_rel_def folder_set_def image_iff) force
  then show ?thesis by (rule finite_subset) simp
qed

lemma finite_parent_rel: "finite (parent_rel s)"
  using parent_rel_child_rel finite_child_rel by (rule finite_subset)

lemma wf_parent_rel: "acyclic (parent_rel s) \<Longrightarrow> wf (parent_rel s)"
  using finite_parent_rel by (rule finite_acyclic_wf)

lemma wf_child_rel: "acyclic (child_rel s) \<Longrightarrow> wf ((child_rel s)\<inverse>)"
  using finite_child_rel by (simp add: finite_acyclic_wf_converse)

lemma acyclic_child_parent: "acyclic (child_rel s) \<Longrightarrow> acyclic (parent_rel s)"
  by (erule acyclic_subset) (rule parent_rel_child_rel)

lemma rtrancl_parent_rel:
  "(g, f) \<in> (parent_rel s)\<^sup>* \<longleftrightarrow>
     g = f \<or> (\<exists>p. parent_of s f = Some p \<and> (g, p) \<in> (parent_rel s)\<^sup>*)"
proof
  assume "(g, f) \<in> (parent_rel s)\<^sup>*"
  then show "g = f \<or> (\<exists>p. parent_of s f = Some p \<and> (g, p) \<in> (parent_rel s)\<^sup>*)"
    by (cases rule: rtranclE) (auto simp: parent_rel_def)
next
  assume "g = f \<or> (\<exists>p. parent_of s f = Some p \<and> (g, p) \<in> (parent_rel s)\<^sup>*)"
  then show "(g, f) \<in> (parent_rel s)\<^sup>*"
    by (auto simp: parent_rel_def intro: rtrancl_into_rtrancl)
qed

lemma ancestors_unfold:
  "ancestors s f = (case parent_of s f of None \<Rightarrow> {} | Some p \<Rightarrow> insert p (ancestors s p))"
proof -
  have "(a, f) \<in> (parent_rel s)\<^sup>+ \<longleftrightarrow>
        (\<exists>p. parent_of s f = Some p \<and> (a = p \<or> (a, p) \<in> (parent_rel s)\<^sup>+))" for a
  proof
    assume "(a, f) \<in> (parent_rel s)\<^sup>+"
    then show "\<exists>p. parent_of s f = Some p \<and> (a = p \<or> (a, p) \<in> (parent_rel s)\<^sup>+)"
      by (cases rule: tranclE) (auto simp: parent_rel_def)
  next
    assume "\<exists>p. parent_of s f = Some p \<and> (a = p \<or> (a, p) \<in> (parent_rel s)\<^sup>+)"
    then show "(a, f) \<in> (parent_rel s)\<^sup>+"
      by (auto simp: parent_rel_def intro: trancl_into_trancl)
  qed
  then show ?thesis
    by (auto simp: ancestors_def split: option.splits)
qed

lemma get_parent_folders_total:
  assumes "wf (parent_rel s)"
  shows "\<exists>ps. get_parent_folders s f = Some ps \<and> set ps = ancestors s f"
  using assms
proof (induction f rule: wf_induct_rule)
  case (less f)
  show ?case
  proof (cases "parent_of s f")
    case None
    then show ?thesis
      by (subst get_parent_folders.simps) (simp add: ancestors_unfold [of s f])
  next
    case (Some p)
    then have "(p, f) \<in> parent_rel s" by (simp add: parent_rel_def)
    from less.IH [OF this] obtain ps where "get_parent_folders s p = Some ps" "set ps = ancestors s p"
      by blast
    with Some show ?thesis
      by (subst get_parent_folders.simps) (simp add: ancestors_unfold [of s f])
  qed
qed

lemma perimeter_walk_None: "perimeter_walk None s ra perm = Some False"
  by (subst perimeter_walk.simps) simp

lemma perimeter_walk_total:
  assumes "wf (parent_rel s)"
  shows "perimeter_walk (Some f) s ra perm =
           Some (perm \<in> set (permissions (ra_role ra)) \<and>
                 (\<exists>g \<in> set (perimeter_folders ra). (g, f) \<in> (parent_rel s)\<^sup>*))"
  using assms
proof (induction f rule: wf_induct_rule)
  case (less f)
  show ?case
  proof (cases "f \<in> set (perimeter_folders ra) \<and> perm \<in> set (permissions (ra_role ra))")
    case True
    then show ?thesis
      by (subst perimeter_walk.simps) auto
  next
    case False
    show ?thesis
    proof (cases "parent_of s f")
      case None
      with False show ?thesis
        by (subst perimeter_walk.simps) (auto simp: perimeter_walk_None rtrancl_parent_rel [of _ f])
    next
      case (Some p)
      then have "(p, f) \<in> parent_rel s" by (simp add: parent_rel_def)
      from less.IH [OF this] Some False show ?thesis
        by (subst perimeter_walk.simps) (auto simp: rtrancl_parent_rel [of _ f])
    qed
  qed
qed

lemma is_access_allowed_loop_total:
  assumes "wf (parent_rel s)"
  shows "is_access_allowed_loop s ras perm f =
           Some (\<exists>ra \<in> set ras. perm \<in> set (permissions (ra_role ra)) \<and>
                   (perm = add_tag_permission \<or>
                    (\<exists>g \<in> set (perimeter_folders ra). (g, f) \<in> (parent_rel s)\<^sup>*)))"
  by (induction ras) (auto simp: perimeter_walk_total [OF assms] split: bool.splits)


lemma get_role_assignments_append:
  "get_role_assignments s p =
     roleassignment_set s p @ group_role_assignments s p @ roleassignment_set s p"
  by (cases p) (simp_all add: get_role_assignments_def group_role_assignments_def)

lemma roleassignment_set_flip:
  "roleassignment_set (flip_is_recursive i s) p = map (flip_ra i) (roleassignment_set s p)"
  by (cases p) (simp_all add: roleassignment_set_def flip_is_recursive_def filter_map o_def flip_ra_def)

lemma user_groups_all_flip: "user_groups_all (flip_is_recursive i s) u = user_groups_all s u"
  by (simp add: user_groups_all_def flip_is_recursive_def)

lemma get_role_assignments_flip:
  "get_role_assignments (flip_is_recursive i s) p = map (flip_ra i) (get_role_assignments s p)"
  by (cases p)
     (simp_all add: get_role_assignments_append group_role_assignments_def roleassignment_set_flip
        user_groups_all_flip map_concat o_def)

lemma parent_of_flip: "parent_of (flip_is_recursive i s) = parent_of s"
  by (rule ext) (simp add: parent_of_def folder_by_id_def flip_is_recursive_def)

lemma parent_rel_flip: "parent_rel (flip_is_recursive i s) = parent_rel s"
  by (simp add: parent_rel_def parent_of_flip)

lemma flip_ra_fields:
  "permissions (ra_role (flip_ra i ra)) = permissions (ra_role ra)"
  "perimeter_folders (flip_ra i ra) = perimeter_folders ra"
  by (simp_all add: flip_ra_def)

lemma ex_child_rel_less: "child_rel ex_store \<subseteq> {(x, y). x < y}"
  by (auto simp: child_rel_def folder_set_def ex_store_def split: if_splits)

lemma ex_store_tree: "acyclic (child_rel ex_store)"
  by (rule acyclic_subset [OF wf_acyclic [OF wf_less] ex_child_rel_less])

lemma ex_store_parents: "acyclic (parent_rel ex_store)"
  by (rule acyclic_child_parent [OF ex_store_tree])

lemma ex_get_role_assignments:
  "get_role_assignments ex_store (User 7) = [ra100, ra101, ra100]"
  by (simp add: get_role_assignments_def roleassignment_set_def user_groups_all_def ex_store_def
      ra100_def ra101_def ra102_def)

lemma ex_parent_of:
  "parent_of ex_store 20 = None" "parent_of ex_store 21 = Some 20"
  "parent_of ex_store 22 = Some 21" "parent_of ex_store 23 = Some 21"
  "parent_of ex_store 24 = Some 20"
  by (simp_all add: parent_of_def folder_by_id_def ex_store_def)

text \<open>
  Claim C1. When the parent relation is acyclic, an assignment of the principal whose role
  holds the permission and whose perimeter has a folder equal to \<open>f\<close> or among the
  ancestors of \<open>f\<close> makes \<open>is_access_allowed\<close> return True, for every permission; and
  negating the \<open>is_recursive\<close> flag of any assignment leaves the decision as it is.
\<close>

theorem is_access_allowed_perimeter:
  assumes "acyclic (parent_rel s)"
    and "ra \<in> set (get_role_assignments s p)"
    and "perm \<in> set (permissions (ra_role ra))"
    and "g \<in> set (perimeter_folders ra)"
    and "g = f \<or> g \<in> ancestors s f"
  shows "is_access_allowed s p perm f = Some True \<and>
         is_access_allowed (flip_is_recursive i s) p perm f = is_access_allowed s p perm f"
proof -
  have wf: "wf (parent_rel s)" using assms(1) by (rule wf_parent_rel)
  have "(g, f) \<in> (parent_rel s)\<^sup>*"
    using assms(5) by (auto simp: ancestors_def)
  with assms(2-4) have first: "is_access_allowed s p perm f = Some True"
    unfolding is_access_allowed_def is_access_allowed_loop_total [OF wf] by auto
  have wf': "wf (parent_rel (flip_is_recursive i s))"
    using wf by (simp add: parent_rel_flip)
  have "is_access_allowed (flip_is_recursive i s) p perm f = is_access_allowed s p perm f"
    unfolding is_access_allowed_def is_access_allowed_loop_total [OF wf]
      is_access_allowed_loop_total [OF wf']
    by (simp add: get_role_assignments_flip parent_rel_flip flip_ra_fields)
  with first show ?thesis by simp
qed

theorem is_access_allowed_perimeter_witness:
  "acyclic (parent_rel ex_store) \<and> ra100 \<in> set (get_role_assignments ex_store (User 7)) \<and>
   ''view_asset'' \<in> set (permissions (ra_role ra100)) \<and> 21 \<in> set (perimeter_folders ra100) \<and>
   21 \<in> ancestors ex_store 22 \<and>
   is_access_allowed ex_store (User 7) ''view_asset'' 22 = Some True \<and>
   is_access_allowed (flip_is_recursive 100 ex_store) (User 7) ''view_asset'' 22 =
     is_access_allowed ex_store (User 7) ''view_asset'' 22"
proof -
  have a: "ra100 \<in> set (get_role_assignments ex_store (User 7))"
    by (simp add: ex_get_role_assignments)
  have b: "''view_asset'' \<in> set (permissions (ra_role ra100))"
    by (simp add: ra100_def reader_role_def)
  have c: "21 \<in> set (perimeter_folders ra100)" by (simp add: ra100_def)
  have d: "21 \<in> ancestors ex_store 22"
    by (simp add: ancestors_unfold [of ex_store 22] ex_parent_of)
  from is_access_allowed_perimeter [OF ex_store_parents a b c disjI2 [OF d], of 100]
    ex_store_parents a b c d
  show ?thesis by simp
qed

lemma get_parent_folders_last:
  assumes "wf (parent_rel s)"
  shows "\<exists>ps. get_parent_folders s f = Some ps \<and> parent_of s (last (f # ps)) = None"
  using assms
proof (induction f rule: wf_induct_rule)
  case (less f)
  show ?case
  proof (cases "parent_of s f")
    case None
    then show ?thesis by (subst get_parent_folders.simps) simp
  next
    case (Some p)
    then have "(p, f) \<in> parent_rel s" by (simp add: parent_rel_def)
    from less.IH [OF this] obtain ps
      where "get_parent_folders s p = Some ps" "parent_of s (last (p # ps)) = None" by blast
    with Some show ?thesis by (subst get_parent_folders.simps) simp
  qed
qed

text \<open>
  Claim C10. When the parent relation of the store is acyclic, \<open>get_parent_folders\<close>
  returns a list that ends at a folder without parent, the inner loop of
  \<open>is_access_allowed\<close> returns for every assignment, and so does \<open>is_access_allowed\<close>.
\<close>

theorem ancestor_walk_terminates:
  assumes "acyclic (parent_rel s)"
  shows "(\<exists>ps. get_parent_folders s f = Some ps \<and> parent_of s (last (f # ps)) = None) \<and>
         (\<exists>b. perimeter_walk (Some f) s ra perm = Some b) \<and>
         (\<exists>b. is_access_allowed s p perm f = Some b)"
proof -
  have wf: "wf (parent_rel s)" using assms by (rule wf_parent_rel)
  show ?thesis
    using get_parent_folders_last [OF wf, of f]
    by (simp add: perimeter_walk_total [OF wf] is_access_allowed_def
        is_access_allowed_loop_total [OF wf])
qed

theorem ancestor_walk_terminates_witness:
  "acyclic (parent_rel ex_store) \<and>
   (\<exists>ps. get_parent_folders ex_store 22 = Some ps \<and> parent_of ex_store (last (22 # ps)) = None) \<and>
   (\<exists>b. perimeter_walk (Some 22) ex_store ra100 ''view_asset'' = Some b) \<and>
   (\<exists>b. is_access_allowed ex_store (User 7) ''view_asset'' 22 = Some b)"
  using ancestor_walk_terminates [OF ex_store_parents, of 22 ra100 "''view_asset''" "User 7"]
    ex_store_parents by simp

text \<open>
  Claim C4 as stated fails: user 7 of the sample store has one direct assignment, and
  \<open>get_role_assignments\<close> lists it twice.
\<close>

theorem get_role_assignments_not_distinct:
  "\<not> distinct (get_role_assignments ex_store (User 7))"
  by (simp add: ex_get_role_assignments)

text \<open>
  Claim C4, amended. The elements of the list \<open>get_role_assignments\<close> returns are the
  principal's own assignments together with, for a user, the assignments of each of its
  groups; the list is not deduplicated: an assignment occurs in it twice for each of its
  occurrences among the direct assignments and once for each among the group ones.
\<close>

theorem get_role_assignments_union:
  "set (get_role_assignments s (User u)) =
     set (roleassignment_set s (User u)) \<union>
     (\<Union>g \<in> set (user_groups_all s u). set (roleassignment_set s (UserGroup g))) \<and>
   set (get_role_assignments s (UserGroup g)) = set (roleassignment_set s (UserGroup g)) \<and>
   count_list (get_role_assignments s p) ra =
     2 * count_list (roleassignment_set s p) ra + count_list (group_role_assignments s p) ra"
  by (auto simp: get_role_assignments_append group_role_assignments_def)

lemma ex_ancestors:
  "ancestors ex_store 20 = {}" "ancestors ex_store 21 = {20}" "ancestors ex_store 22 = {21, 20}"
  "ancestors ex_store 23 = {21, 20}" "ancestors ex_store 24 = {20}"
proof -
  show a: "ancestors ex_store 20 = {}" by (simp add: ancestors_unfold [of ex_store 20] ex_parent_of)
  show b: "ancestors ex_store 21 = {20}"
    by (simp add: ancestors_unfold [of ex_store 21] ex_parent_of a)
  show "ancestors ex_store 22 = {21, 20}"
    by (simp add: ancestors_unfold [of ex_store 22] ex_parent_of b)
  show "ancestors ex_store 23 = {21, 20}"
    by (simp add: ancestors_unfold [of ex_store 23] ex_parent_of b)
  show "ancestors ex_store 24 = {20}"
    by (simp add: ancestors_unfold [of ex_store 24] ex_parent_of a)
qed

lemma rtrancl_ancestors: "(g, f) \<in> (parent_rel s)\<^sup>* \<longleftrightarrow> g = f \<or> g \<in> ancestors s f"
  by (auto simp: ancestors_def rtrancl_eq_or_trancl)

text \<open>
  Claim C5. When the parent relation is acyclic: if some assignment of the principal has
  the tagging permission in its role, \<open>is_access_allowed\<close> returns True for that permission
  on every folder; for any other permission the decision is True exactly when an
  assignment holding it has a perimeter folder equal to the folder or among its ancestors.
\<close>

theorem add_tag_escape_hatch:
  assumes "acyclic (parent_rel s)"
  shows "((\<exists>ra \<in> set (get_role_assignments s p).
             add_tag_permission \<in> set (permissions (ra_role ra))) \<longrightarrow>
          is_access_allowed s p add_tag_permission f = Some True) \<and>
         (perm \<noteq> add_tag_permission \<longrightarrow>
          is_access_allowed s p perm f =
            Some (\<exists>ra \<in> set (get_role_assignments s p).
                    perm \<in> set (permissions (ra_role ra)) \<and>
                    (\<exists>g \<in> set (perimeter_folders ra). g = f \<or> g \<in> ancestors s f)))"
proof -
  have wf: "wf (parent_rel s)" using assms by (rule wf_parent_rel)
  show ?thesis
    by (auto simp: is_access_allowed_def is_access_allowed_loop_total [OF wf] rtrancl_ancestors)
qed

lemma ex_ra_fields:
  "permissions (ra_role ra100) = [''view_folder'', ''view_asset'']"
  "permissions (ra_role ra101) = [''add_filteringlabel'']"
  "perimeter_folders ra100 = [21]" "perimeter_folders ra101 = [24]"
  by (simp_all add: ra100_def ra101_def reader_role_def tagger_role_def)

lemma ex_group_role_assignments:
  "get_role_assignments ex_store (UserGroup 10) = [ra101, ra101]"
  by (simp add: get_role_assignments_def roleassignment_set_def ex_store_def ra100_def ra101_def
      ra102_def)

theorem add_tag_escape_hatch_witness:
  "acyclic (parent_rel ex_store) \<and>
   (\<exists>ra \<in> set (get_role_assignments ex_store (UserGroup 10)).
      add_tag_permission \<in> set (permissions (ra_role ra))) \<and>
   get_role_assignments ex_store (UserGroup 10) = [ra101, ra101] \<and>
   perimeter_folders ra101 = [24] \<and> 24 \<notin> ancestors ex_store 22 \<and>
   22 \<notin> ancestors ex_store 24 \<and>
   is_access_allowed ex_store (UserGroup 10) add_tag_permission 22 = Some True \<and>
   ''view_asset'' \<noteq> add_tag_permission \<and>
   is_access_allowed ex_store (User 7) ''view_asset'' 24 = Some False"
  using add_tag_escape_hatch [OF ex_store_parents, of "UserGroup 10" 22 "''view_asset''"]
    add_tag_escape_hatch [OF ex_store_parents, of "User 7" 24 "''view_asset''"]
    ex_store_parents
  by (simp add: ex_get_role_assignments ex_group_role_assignments ex_ra_fields ex_ancestors
      add_tag_permission_def)

lemma is_access_allowed_loop_append:
  "is_access_allowed_loop s (xs @ ys) perm f =
     (case is_access_allowed_loop s xs perm f of
        None \<Rightarrow> None
      | Some True \<Rightarrow> Some True
      | Some False \<Rightarrow> is_access_allowed_loop s ys perm f)"
  by (induction xs) (auto split: option.splits bool.splits)

lemma is_access_allowed_loop_False:
  "is_access_allowed_loop s xs perm f = Some False \<longleftrightarrow>
     (\<forall>ra \<in> set xs. \<not> (perm = add_tag_permission \<and> perm \<in> set (permissions (ra_role ra))) \<and>
        perimeter_walk (Some f) s ra perm = Some False)"
  by (induction xs) (auto split: option.splits bool.splits)

lemma is_access_allowed_loop_repeat:
  assumes "set zs \<subseteq> set xs"
  shows "is_access_allowed_loop s (xs @ zs) perm f = is_access_allowed_loop s xs perm f"
proof (cases "is_access_allowed_loop s xs perm f = Some False")
  case True
  then have "is_access_allowed_loop s zs perm f = Some False"
    using assms unfolding is_access_allowed_loop_False by blast
  with True show ?thesis by (simp add: is_access_allowed_loop_append)
next
  case False
  then show ?thesis
    by (auto simp: is_access_allowed_loop_append split: option.splits bool.splits)
qed

lemma fold_upd:
  "fold (\<lambda>p d. d(p \<mapsto> v p)) ps m = (\<lambda>c. if c \<in> set ps then Some (v c) else m c)"
  by (induction ps arbitrary: m) (auto simp: fun_eq_iff)

lemma get_permissions_fold:
  "fold (\<lambda>ra permissions'.
           fold (\<lambda>p d. d(p \<mapsto> v p)) (permissions (ra_role ra)) permissions') ras m =
     (\<lambda>c. if c \<in> (\<Union>ra \<in> set ras. set (permissions (ra_role ra))) then Some (v c) else m c)"
  by (induction ras arbitrary: m) (auto simp: fold_upd fun_eq_iff)

lemma get_permissions_of_eq:
  "get_permissions_of str ras =
     (\<lambda>c. if c \<in> (\<Union>ra \<in> set ras. set (permissions (ra_role ra)))
          then Some [(''str'', str c)] else None)"
  unfolding get_permissions_of_def by (rule get_permissions_fold)

lemma get_permissions_of_cong:
  "set ras = set ras' \<Longrightarrow> get_permissions_of str ras = get_permissions_of str ras'"
  by (simp add: get_permissions_of_eq)

text \<open>
  Claim C9. Over an acyclic parent relation the loop of \<open>is_access_allowed\<close> gives the same
  decision on two assignment lists with the same elements; the permission dictionary of
  \<open>get_permissions\<close> is the same for two such lists; and both functions give on the list
  of \<open>get_role_assignments\<close>, where the direct assignments stand twice, what they give
  on the list where they stand once.
\<close>

theorem access_depends_on_assignment_set:
  "(acyclic (parent_rel s) \<longrightarrow> set ras = set ras' \<longrightarrow>
      is_access_allowed_loop s ras perm f = is_access_allowed_loop s ras' perm f) \<and>
   (set ras = set ras' \<longrightarrow> get_permissions_of str ras = get_permissions_of str ras') \<and>
   is_access_allowed s p perm f =
     is_access_allowed_loop s (roleassignment_set s p @ group_role_assignments s p) perm f \<and>
   get_permissions str s p =
     get_permissions_of str (roleassignment_set s p @ group_role_assignments s p)"
proof -
  have a: "is_access_allowed_loop s ras perm f = is_access_allowed_loop s ras' perm f"
    if "acyclic (parent_rel s)" "set ras = set ras'"
    using that by (simp add: is_access_allowed_loop_total [OF wf_parent_rel])
  have b: "get_permissions_of str ras = get_permissions_of str ras'" if "set ras = set ras'"
    using that by (rule get_permissions_of_cong)
  have c: "is_access_allowed s p perm f =
     is_access_allowed_loop s (roleassignment_set s p @ group_role_assignments s p) perm f"
    using is_access_allowed_loop_repeat
      [of "roleassignment_set s p" "roleassignment_set s p @ group_role_assignments s p" s perm f]
    by (simp add: is_access_allowed_def get_role_assignments_append)
  have d: "get_permissions str s p =
     get_permissions_of str (roleassignment_set s p @ group_role_assignments s p)"
    unfolding get_permissions_def get_role_assignments_append
    by (rule get_permissions_of_cong) auto
  from a b c d show ?thesis by blast
qed

theorem access_depends_on_assignment_set_witness:
  "acyclic (parent_rel ex_store) \<and> set [ra100, ra101, ra100] = set [ra101, ra100] \<and>
   is_access_allowed_loop ex_store [ra100, ra101, ra100] ''view_asset'' 22 =
     is_access_allowed_loop ex_store [ra101, ra100] ''view_asset'' 22 \<and>
   get_permissions_of id [ra100, ra101, ra100] = get_permissions_of id [ra101, ra100]"
proof -
  have e: "set [ra100, ra101, ra100] = set [ra101, ra100]" by auto
  from access_depends_on_assignment_set
    [of ex_store "[ra100, ra101, ra100]" "[ra101, ra100]" "''view_asset''" 22 id]
    e ex_store_parents
  show ?thesis by blast
qed

section \<open>Properties of the enumerations\<close>

lemma descendants_unfold:
  "descendants s f =
     set (folder_set s f) \<union> (\<Union>g \<in> set (folder_set s f). descendants s g)"
proof -
  have "(f, x) \<in> (child_rel s)\<^sup>+ \<longleftrightarrow>
        (f, x) \<in> child_rel s \<or> (\<exists>g. (f, g) \<in> child_rel s \<and> (g, x) \<in> (child_rel s)\<^sup>+)" for x
    by (metis converse_tranclE r_into_trancl' trancl_into_trancl2)
  then show ?thesis
    by (auto simp: descendants_def child_rel_def)
qed

lemma sub_folders_in_list:
  assumes "\<forall>g \<in> set fs. \<exists>ds. sub_folders_in s (folder_set s g) = Some ds \<and> set ds = descendants s g"
  shows "\<exists>ds. sub_folders_in s fs = Some ds \<and> set ds = set fs \<union> (\<Union>g \<in> set fs. descendants s g)"
  using assms
proof (induction fs)
  case Nil
  show ?case by (subst sub_folders_in.simps) simp
next
  case (Cons g fs)
  from Cons.prems obtain inner
    where inner: "sub_folders_in s (folder_set s g) = Some inner" "set inner = descendants s g"
    by auto
  from Cons obtain outer
    where outer: "sub_folders_in s fs = Some outer"
      "set outer = set fs \<union> (\<Union>g \<in> set fs. descendants s g)"
    by auto
  show ?case
    by (subst sub_folders_in.simps) (auto simp: inner outer)
qed

lemma get_sub_folders_total:
  assumes "acyclic (child_rel s)"
  shows "\<exists>ds. get_sub_folders s f = Some ds \<and> set ds = descendants s f"
proof -
  have wf: "wf ((child_rel s)\<inverse>)"
  proof -
    have "child_rel s \<subseteq> (\<lambda>x. (the (parent_folder x), folder_id x)) ` set (folders s)"
      by (auto simp: child_rel_def folder_set_def image_iff) force
    then have "finite (child_rel s)" by (rule finite_subset) simp
    with assms show ?thesis by (simp add: finite_acyclic_wf_converse)
  qed
  have "\<exists>ds. sub_folders_in s (folder_set s f) = Some ds \<and> set ds = descendants s f"
    using wf
  proof (induction f rule: wf_induct_rule)
    case (less f)
    have "\<forall>g \<in> set (folder_set s f).
            \<exists>ds. sub_folders_in s (folder_set s g) = Some ds \<and> set ds = descendants s g"
      using less.IH by (simp add: child_rel_def)
    from sub_folders_in_list [OF this] show ?case
      by (simp add: descendants_unfold [of s f])
  qed
  then show ?thesis by (simp add: get_sub_folders_def)
qed

lemma add_folders_total:
  assumes "acyclic (child_rel s)"
  shows "\<exists>r. add_folders s fs acc = Some r \<and>
             set r = set acc \<union> (\<Union>f \<in> set fs. insert f (descendants s f))"
proof (induction fs arbitrary: acc)
  case Nil
  show ?case by simp
next
  case (Cons f fs)
  obtain subs where subs: "get_sub_folders s f = Some subs" "set subs = descendants s f"
    using get_sub_folders_total [OF assms] by blast
  from Cons [of "acc @ f # subs"] subs show ?case by auto
qed

lemma accessible_loop_total:
  assumes "acyclic (child_rel s)"
  shows "\<exists>r. accessible_loop s ras acc = Some r \<and>
             set r = set acc \<union>
               (\<Union>ra \<in> set ras. \<Union>f \<in> set (perimeter_folders ra). insert f (descendants s f))"
proof (induction ras arbitrary: acc)
  case Nil
  show ?case by simp
next
  case (Cons ra ras)
  obtain r1 where r1: "add_folders s (perimeter_folders ra) acc = Some r1"
    "set r1 = set acc \<union> (\<Union>f \<in> set (perimeter_folders ra). insert f (descendants s f))"
    using add_folders_total [OF assms] by blast
  from Cons [of r1] r1 show ?case by auto
qed

lemma get_accessible_folders_total:
  assumes "acyclic (child_rel s)"
  shows "\<exists>ids. get_accessible_folders s folder user ctype codename = Some ids \<and>
           set ids = accessible_folders_spec s folder user ctype codename \<and> distinct ids"
proof -
  let ?ras = "filter (\<lambda>x. ''view_folder'' \<in> set (permissions (ra_role x)) \<and>
                        codename \<in> set (permissions (ra_role x)))
             (get_role_assignments s user)"
  obtain fset where fset: "accessible_loop s ?ras [] = Some fset"
    "set fset = (\<Union>ra \<in> set ?ras. \<Union>f \<in> set (perimeter_folders ra). insert f (descendants s f))"
    using accessible_loop_total [OF assms, of ?ras "[]"] by auto
  obtain subs where subs: "get_sub_folders s folder = Some subs" "set subs = descendants s folder"
    using get_sub_folders_total [OF assms] by blast
  show ?thesis
    unfolding get_accessible_folders_def accessible_folders_spec_def scope_def
    using fset subs by (auto split: option.splits)
qed

lemma sub_folders_of_all_total:
  assumes "acyclic (child_rel s)"
  shows "\<exists>r. sub_folders_of_all s fs = Some r \<and> set r = (\<Union>f \<in> set fs. descendants s f)"
proof (induction fs)
  case Nil
  show ?case by simp
next
  case (Cons f fs)
  obtain subs where subs: "get_sub_folders s f = Some subs" "set subs = descendants s f"
    using get_sub_folders_total [OF assms] by blast
  with Cons show ?case by auto
qed

lemma ra_perimeter_of_total:
  assumes "acyclic (child_rel s)"
  shows "\<exists>xs. ra_perimeter_of s ra = Some xs \<and> set xs = ra_scope s ra"
  using sub_folders_of_all_total [OF assms, of "perimeter_folders ra"]
  by (auto simp: ra_perimeter_of_def ra_scope_def)

lemma grant_loop_total:
  assumes "acyclic (child_rel s)"
  shows "\<exists>rf. grant_loop s perimeter perms ras acc = Some rf \<and>
           set rf = set acc \<union>
             {(f, p). f \<in> set perimeter \<and> p \<in> set perms \<and>
                (\<exists>ra \<in> set ras. p \<in> set (permissions (ra_role ra)) \<and> f \<in> ra_scope s ra)}"
proof (induction ras arbitrary: acc)
  case Nil
  show ?case by simp
next
  case (Cons ra ras)
  obtain xs where xs: "ra_perimeter_of s ra = Some xs" "set xs = ra_scope s ra"
    using ra_perimeter_of_total [OF assms] by blast
  let ?acc = "acc @ concat (map (\<lambda>p. map (\<lambda>f. (f, p)) (filter (\<lambda>f. f \<in> set xs) perimeter))
                 (filter (\<lambda>p. p \<in> set (permissions (ra_role ra))) perms))"
  from Cons [of ?acc] obtain rf where rf: "grant_loop s perimeter perms ras ?acc = Some rf"
    "set rf = set ?acc \<union>
             {(f, p). f \<in> set perimeter \<and> p \<in> set perms \<and>
                (\<exists>ra \<in> set ras. p \<in> set (permissions (ra_role ra)) \<and> f \<in> ra_scope s ra)}"
    by blast
  have "grant_loop s perimeter perms (ra # ras) acc = Some rf"
    using xs rf by simp
  moreover have "set rf = set acc \<union>
             {(f, p). f \<in> set perimeter \<and> p \<in> set perms \<and>
                (\<exists>ra \<in> set (ra # ras). p \<in> set (permissions (ra_role ra)) \<and> f \<in> ra_scope s ra)}"
    unfolding rf(2) using xs(2) by auto
  ultimately show ?case by blast
qed

lemma collect_loop_Inr:
  assumes "collect_loop ot rf pv pc pd fs (rv, rc, rd) = Inr (rv', rc', rd')"
  shows "set rv' = set rv \<union> (\<Union>f \<in> {f \<in> set fs. (f, pv) \<in> set rf}. located ot f) \<and>
         set rc' = set rc \<union> (\<Union>f \<in> {f \<in> set fs. (f, pc) \<in> set rf}. located ot f) \<and>
         set rd' = set rd \<union> (\<Union>f \<in> {f \<in> set fs. (f, pd) \<in> set rf}. located ot f)"
  using assms
proof (induction fs arbitrary: rv rc rd)
  case Nil
  then show ?case by simp
next
  case (Cons f fs)
  from Cons.prems obtain ids where ids: "objects_ids ot f = Inr ids"
    by (auto split: sum.splits)
  then have loc: "located ot f = set ids" by (simp add: located_def)
  from Cons.prems ids have
    "collect_loop ot rf pv pc pd fs
       (if (f, pv) \<in> set rf then rv @ ids else rv,
        if (f, pc) \<in> set rf then rc @ ids else rc,
        if (f, pd) \<in> set rf then rd @ ids else rd) = Inr (rv', rc', rd')"
    by simp
  from Cons.IH [OF this] loc show ?case by auto
qed

lemma objects_ids_supported: "supported ot \<Longrightarrow> \<exists>ids. objects_ids ot f = Inr ids"
  by (auto simp: supported_def objects_ids_def)

lemma collect_loop_supported:
  assumes "supported ot"
  shows "\<exists>r. collect_loop ot rf pv pc pd fs (rv, rc, rd) = Inr r"
proof (induction fs arbitrary: rv rc rd)
  case Nil
  show ?case by simp
next
  case (Cons f fs)
  obtain ids where ids: "objects_ids ot f = Inr ids"
    using objects_ids_supported [OF assms] by blast
  show ?case using Cons ids by simp
qed

lemma published_walk_None: "published_walk None s ot rv = Some rv"
  by (subst published_walk.simps) simp

lemma published_walk_total:
  assumes "wf (parent_rel s)"
  shows "\<exists>r. published_walk (Some g) s ot rv = Some r \<and>
             set r = set rv \<union> (\<Union>a \<in> insert g (ancestors s g). set (published_ids ot a))"
  using assms
proof (induction g arbitrary: rv rule: wf_induct_rule)
  case (less g)
  show ?case
  proof (cases "parent_of s g")
    case None
    then show ?thesis
      by (subst published_walk.simps) (simp add: published_walk_None ancestors_unfold [of s g])
  next
    case (Some p)
    then have "(p, g) \<in> parent_rel s" by (simp add: parent_rel_def)
    from less.IH [OF this, of "rv @ published_ids ot g"] Some show ?thesis
      by (subst published_walk.simps) (auto simp: ancestors_unfold [of s g])
  qed
qed

lemma published_walk_parent:
  assumes "wf (parent_rel s)"
  shows "\<exists>r. published_walk (parent_of s f) s ot rv = Some r \<and>
             set r = set rv \<union> (\<Union>a \<in> ancestors s f. set (published_ids ot a))"
proof (cases "parent_of s f")
  case None
  then show ?thesis by (simp add: published_walk_None ancestors_unfold [of s f])
next
  case (Some p)
  with published_walk_total [OF assms, of p ot rv] show ?thesis
    by (simp add: ancestors_unfold [of s f])
qed

lemma overlay_loop_total:
  assumes "wf (parent_rel s)"
  shows "\<exists>r. overlay_loop s ot fs rv = Some r \<and>
             set r = set rv \<union>
               (\<Union>g \<in> {g \<in> set fs. content_type_of s g \<noteq> Some ENCLAVE}.
                  \<Union>a \<in> ancestors s g. set (published_ids ot a))"
proof (induction fs arbitrary: rv)
  case Nil
  show ?case by simp
next
  case (Cons f fs)
  let ?U = "\<lambda>xs. (\<Union>g \<in> {g \<in> set xs. content_type_of s g \<noteq> Some ENCLAVE}.
                  \<Union>a \<in> ancestors s g. set (published_ids ot a))"
  show ?case
  proof (cases "content_type_of s f \<noteq> Some ENCLAVE")
    case True
    obtain r1 where r1: "published_walk (parent_of s f) s ot rv = Some r1"
      "set r1 = set rv \<union> (\<Union>a \<in> ancestors s f. set (published_ids ot a))"
      using published_walk_parent [OF assms] by blast
    from Cons [of r1] obtain r where r: "overlay_loop s ot fs r1 = Some r"
      "set r = set r1 \<union> ?U fs" by blast
    have "overlay_loop s ot (f # fs) rv = Some r" using True r1 r by simp
    moreover have "?U (f # fs) = (\<Union>a \<in> ancestors s f. set (published_ids ot a)) \<union> ?U fs"
      using True by auto
    then have "set r = set rv \<union> ?U (f # fs)"
      unfolding r(2) r1(2) by (simp add: Un_assoc)
    ultimately show ?thesis by blast
  next
    case False
    from Cons [of rv] obtain r where r: "overlay_loop s ot fs rv = Some r"
      "set r = set rv \<union> ?U fs" by blast
    have "overlay_loop s ot (f # fs) rv = Some r" using False r by simp
    moreover have "?U (f # fs) = ?U fs"
      using False by auto
    then have "set r = set rv \<union> ?U (f # fs)"
      unfolding r(2) by simp
    ultimately show ?thesis by blast
  qed
qed

lemma get_accessible_object_ids_total:
  assumes tree: "acyclic (child_rel s)" and sup: "supported ot"
  shows "\<exists>rv rc rd.
           get_accessible_object_ids s folder user ot = Some (Inr (rv, rc, rd)) \<and>
           set rv = local_ids s folder user ot (''view_'' @ class_name ot) \<union>
                    (if has_is_published ot \<and> has_folder ot
                     then overlay_ids s folder user ot else {}) \<and>
           set rc = local_ids s folder user ot (''change_'' @ class_name ot) \<and>
           set rd = local_ids s folder user ot (''delete_'' @ class_name ot) \<and>
           distinct rv \<and> distinct rc \<and> distinct rd"
proof -
  define pv where "pv = ''view_'' @ class_name ot"
  define pc where "pc = ''change_'' @ class_name ot"
  define pd where "pd = ''delete_'' @ class_name ot"
  define ras where "ras = filter (\<lambda>ra. ''view_folder'' \<in> set (permissions (ra_role ra)))
                       (get_role_assignments s user)"
  have wf: "wf (parent_rel s)"
    by (rule wf_parent_rel [OF acyclic_child_parent [OF tree]])
  obtain subs where subs: "get_sub_folders s folder = Some subs"
    "set subs = descendants s folder"
    using get_sub_folders_total [OF tree] by blast
  obtain rf where rf: "grant_loop s (folder # subs) [pv, pc, pd] ras [] = Some rf"
    "set rf = set [] \<union> {(f, p). f \<in> set (folder # subs) \<and> p \<in> set [pv, pc, pd] \<and>
                (\<exists>ra \<in> set ras. p \<in> set (permissions (ra_role ra)) \<and> f \<in> ra_scope s ra)}"
    using grant_loop_total [OF tree] by blast
  have granted: "{f. (f, p) \<in> set rf} = granted_folders s folder user p"
    if "p \<in> {pv, pc, pd}" for p
    using that unfolding rf(2) granted_folders_def scope_def ras_def
    by (auto simp: subs(2))
  define keys where "keys = remdups (map fst rf)"
  have keys: "{f \<in> set keys. (f, p) \<in> set rf} = granted_folders s folder user p"
    if "p \<in> {pv, pc, pd}" for p
    unfolding granted [OF that, symmetric] keys_def by force
  obtain r0 where r0: "collect_loop ot rf pv pc pd keys ([], [], []) = Inr r0"
    using collect_loop_supported [OF sup] by blast
  obtain rv0 rc0 rd0 where r0': "r0 = (rv0, rc0, rd0)" by (metis prod_cases3)
  from collect_loop_Inr [OF r0 [unfolded r0']]
  have loc: "set rv0 = local_ids s folder user ot pv" "set rc0 = local_ids s folder user ot pc"
    "set rd0 = local_ids s folder user ot pd"
    by (simp_all add: keys local_ids_def)
  obtain rv1 where rv1:
    "overlay_loop s ot (filter (\<lambda>f. (f, pv) \<in> set rf) keys) rv0 = Some rv1"
    "set rv1 = set rv0 \<union>
       (\<Union>g \<in> {g \<in> set (filter (\<lambda>f. (f, pv) \<in> set rf) keys).
                content_type_of s g \<noteq> Some ENCLAVE}.
          \<Union>a \<in> ancestors s g. set (published_ids ot a))"
    using overlay_loop_total [OF wf] by blast
  have "{g \<in> set (filter (\<lambda>f. (f, pv) \<in> set rf) keys). content_type_of s g \<noteq> Some ENCLAVE} =
        {f \<in> granted_folders s folder user pv. content_type_of s f \<noteq> Some ENCLAVE}"
    using keys [of pv] by auto
  then have ov: "set rv1 = local_ids s folder user ot pv \<union> overlay_ids s folder user ot"
    unfolding rv1(2) loc overlay_ids_def pv_def by simp
  have eq: "get_accessible_object_ids s folder user ot =
    (if has_is_published ot \<and> has_folder ot
     then Some (Inr (remdups rv1, remdups rc0, remdups rd0))
     else Some (Inr (remdups rv0, remdups rc0, remdups rd0)))"
    unfolding get_accessible_object_ids_def Let_def
    using subs(1) rf(1) r0 rv1(1)
    unfolding pv_def pc_def pd_def ras_def keys_def r0'
    by simp
  show ?thesis
    unfolding eq using loc ov by (auto simp: pv_def pc_def pd_def)
qed

lemma child_rel_flip: "child_rel (flip_is_recursive i s) = child_rel s"
  by (simp add: child_rel_def folder_set_def flip_is_recursive_def)

lemma descendants_flip: "descendants (flip_is_recursive i s) = descendants s"
  by (rule ext) (simp add: descendants_def child_rel_flip)

lemma content_type_of_flip: "content_type_of (flip_is_recursive i s) = content_type_of s"
  by (rule ext) (simp add: content_type_of_def folder_by_id_def flip_is_recursive_def)

lemma UN_image_invariant:
  assumes "\<And>ra. P (g ra) = P ra" and "\<And>ra. F (g ra) = F ra"
  shows "(\<Union>ra \<in> {ra \<in> g ` A. P ra}. F ra) = (\<Union>ra \<in> {ra \<in> A. P ra}. F ra)"
proof -
  have "(\<Union>ra \<in> {ra \<in> g ` A. P ra}. F ra) = (\<Union>ra \<in> {ra \<in> A. P (g ra)}. F (g ra))"
    by blast
  then show ?thesis by (simp add: assms)
qed

lemma accessible_folders_spec_flip:
  "accessible_folders_spec (flip_is_recursive i s) folder user ctype codename =
   accessible_folders_spec s folder user ctype codename"
  unfolding accessible_folders_spec_def get_role_assignments_flip descendants_flip
    content_type_of_flip scope_def set_map
  by (subst UN_image_invariant) (simp_all add: flip_ra_fields)

text \<open>
  Claim C6. On an acyclic folder tree \<open>get_accessible_folders\<close> returns a duplicate-free
  list whose elements are those of \<open>accessible_folders_spec\<close>: the perimeter folders, each
  with all its descendants, of the user's assignments whose role holds both \<^verbatim>\<open>view_folder\<close>
  and the codename, inside the scope of the query folder, of the content type when one is
  given. The set does not change when the \<open>is_recursive\<close> flag of an assignment is negated.
\<close>

theorem get_accessible_folders_refines:
  assumes "acyclic (child_rel s)"
  shows "\<exists>ids ids'.
           get_accessible_folders s folder user ctype codename = Some ids \<and>
           set ids = accessible_folders_spec s folder user ctype codename \<and> distinct ids \<and>
           get_accessible_folders (flip_is_recursive i s) folder user ctype codename = Some ids' \<and>
           set ids' = set ids"
proof -
  have "acyclic (child_rel (flip_is_recursive i s))"
    using assms by (simp add: child_rel_flip)
  from get_accessible_folders_total [OF this, of folder user ctype codename]
    get_accessible_folders_total [OF assms, of folder user ctype codename]
  show ?thesis by (auto simp: accessible_folders_spec_flip)
qed

text \<open>
  Claim C3. On an acyclic folder tree, for a class with a publication flag and a folder
  attribute, the view set returned by \<open>get_accessible_object_ids\<close> holds the ids located in
  the folders granting the view permission and the ids of the published objects located
  in an ancestor of such a folder whose content type is not \<open>ENCLAVE\<close>, and nothing else;
  the change and delete sets hold the locally granted ids only.
\<close>

theorem publication_overlay:
  assumes "acyclic (child_rel s)" and "has_is_published ot" and "has_folder ot"
  shows "\<exists>rv rc rd.
           get_accessible_object_ids s folder user ot = Some (Inr (rv, rc, rd)) \<and>
           set rv = local_ids s folder user ot (''view_'' @ class_name ot) \<union>
                    overlay_ids s folder user ot \<and>
           set rc = local_ids s folder user ot (''change_'' @ class_name ot) \<and>
           set rd = local_ids s folder user ot (''delete_'' @ class_name ot)"
proof -
  have "supported ot" using assms(3) by (simp add: supported_def)
  from get_accessible_object_ids_total [OF assms(1) this, of folder user] assms(2,3)
  show ?thesis by auto
qed

lemma same_object:
  assumes "distinct (map obj_id xs)" and "x \<in> set xs" and "y \<in> set xs" and "obj_id x = obj_id y"
  shows "x = y"
  using assms by (auto simp: distinct_map dest: inj_onD)

lemma located_disjoint:
  assumes "distinct (map obj_id (objects ot))" and "D \<noteq> F" and "i \<in> located ot D"
  shows "i \<notin> located ot F"
  using assms same_object [OF assms(1)]
  by (auto simp: located_def objects_ids_def split: if_splits) (metis option.inject)+

lemma located_published:
  assumes "distinct (map obj_id (objects ot))" and "has_folder ot" and "i \<in> located ot D"
    and "i \<in> set (published_ids ot a)"
  shows "a = D"
  using assms same_object [OF assms(1)]
  by (auto simp: located_def objects_ids_def published_ids_def) (metis option.inject)

lemma descendant_not_ancestor:
  assumes "acyclic (child_rel s)" and "D \<in> descendants s F"
  shows "D \<noteq> F \<and> D \<notin> ancestors s F"
proof -
  have down: "(F, D) \<in> (child_rel s)\<^sup>+" using assms(2) by (simp add: descendants_def)
  have "D \<noteq> F" using down assms(1) by (auto simp: acyclic_def)
  moreover have "D \<notin> ancestors s F"
  proof
    assume "D \<in> ancestors s F"
    then have "(D, F) \<in> (parent_rel s)\<^sup>+" by (simp add: ancestors_def)
    then have "(D, F) \<in> (child_rel s)\<^sup>+"
      using trancl_mono [OF _ parent_rel_child_rel] by blast
    with down have "(F, F) \<in> (child_rel s)\<^sup>+" by (rule trancl_trans)
    with assms(1) show False by (simp add: acyclic_def)
  qed
  ultimately show ?thesis by simp
qed

text \<open>
  Claim C2. On an acyclic folder tree, when every assignment of the user whose role holds
  \<^verbatim>\<open>view_folder\<close> is not recursive and has the perimeter \<open>{F}\<close>, an object located in a
  strict descendant \<open>D\<close> of \<open>F\<close>, of a class whose ids are distinct, is in none of the
  three sets \<open>get_accessible_object_ids\<close> returns.
\<close>

theorem non_recursive_objects_absent:
  assumes tree: "acyclic (child_rel s)"
    and sole: "\<And>ra. ra \<in> set (get_role_assignments s user) \<Longrightarrow>
                 ''view_folder'' \<in> set (permissions (ra_role ra)) \<Longrightarrow>
                 \<not> is_recursive ra \<and> set (perimeter_folders ra) = {F}"
    and desc: "D \<in> descendants s F"
    and keys: "distinct (map obj_id (objects ot))"
    and loc: "i \<in> located ot D"
  shows "\<exists>rv rc rd.
           get_accessible_object_ids s folder user ot = Some (Inr (rv, rc, rd)) \<and>
           i \<notin> set rv \<and> i \<notin> set rc \<and> i \<notin> set rd"
proof -
  have sup: "supported ot"
    using loc by (auto simp: located_def objects_ids_def supported_def split: if_splits)
  have DF: "D \<noteq> F" "D \<notin> ancestors s F"
    using descendant_not_ancestor [OF tree desc] by simp_all
  have granted: "granted_folders s folder user p \<subseteq> {F}" for p
    using sole by (auto simp: granted_folders_def ra_scope_def)
  have nloc: "i \<notin> located ot F" by (rule located_disjoint [OF keys DF(1) loc])
  then have local: "i \<notin> local_ids s folder user ot p" for p
    using granted [of p] by (auto simp: local_ids_def)
  have over: "i \<notin> overlay_ids s folder user ot" if "has_folder ot"
  proof
    assume "i \<in> overlay_ids s folder user ot"
    then obtain f a where "f \<in> granted_folders s folder user (''view_'' @ class_name ot)"
      "a \<in> ancestors s f" "i \<in> set (published_ids ot a)"
      by (auto simp: overlay_ids_def)
    moreover from this(1) granted have "f = F" by blast
    ultimately have "D \<in> ancestors s F"
      using located_published [OF keys that loc] by blast
    with DF(2) show False by simp
  qed
  from get_accessible_object_ids_total [OF tree sup, of folder user] local over
  show ?thesis by (auto split: if_splits)
qed

text \<open>
  Claim C8. Saving an object whose folder is the root folder, for a class with a folder
  and a publication flag, stores it with \<open>is_published\<close> set; after that, on an acyclic
  tree, its id is in the view set of every user with a folder below the root that grants
  the view permission of the class and is no enclave.
\<close>

theorem publish_in_root_folder:
  assumes root: "get_root_folder s = Some r" and "obj_folder x = Some r"
    and "has_folder ot" and "has_is_published ot"
  shows "\<exists>ot'. save s ot x = Inr ot' \<and>
           (\<exists>y \<in> set (objects ot'). obj_id y = obj_id x \<and> obj_folder y = Some r \<and>
              is_published y) \<and>
           (acyclic (child_rel s) \<and>
            f \<in> granted_folders s folder user (''view_'' @ class_name ot) \<and>
            content_type_of s f \<noteq> Some ENCLAVE \<and> r \<in> ancestors s f \<longrightarrow>
            (\<exists>rv rc rd. get_accessible_object_ids s folder user ot' = Some (Inr (rv, rc, rd)) \<and>
               obj_id x \<in> set rv))"
proof -
  define y where "y = x\<lparr>is_published := True\<rparr>"
  define ot' where "ot' = super_save ot y"
  have same: "y = x" if "is_published x" using that by (simp add: y_def)
  have saved: "save s ot x = Inr ot'"
  proof (cases "is_published x")
    case True
    then show ?thesis using assms(3) same by (simp add: save_def ot'_def)
  next
    case False
    then show ?thesis using assms by (simp add: save_def ot'_def y_def)
  qed
  have y: "y \<in> set (objects ot')" "obj_id y = obj_id x" "obj_folder y = Some r" "is_published y"
    using assms(2) by (simp_all add: ot'_def y_def super_save_def)
  have flags: "has_folder ot'" "has_is_published ot'" "class_name ot' = class_name ot"
    using assms(3,4) by (simp_all add: ot'_def super_save_def)
  have "obj_id y \<in> obj_id ` {z \<in> set (objects ot'). obj_folder z = Some r \<and> is_published z}"
    using y by blast
  then have pub: "obj_id x \<in> set (published_ids ot' r)"
    using y(2) by (simp add: published_ids_def)
  have vis: "\<exists>rv rc rd. get_accessible_object_ids s folder user ot' = Some (Inr (rv, rc, rd)) \<and>
               obj_id x \<in> set rv"
    if tree: "acyclic (child_rel s)"
      and f: "f \<in> granted_folders s folder user (''view_'' @ class_name ot)"
        "content_type_of s f \<noteq> Some ENCLAVE" "r \<in> ancestors s f"
  proof -
    have "obj_id x \<in> overlay_ids s folder user ot'"
      using f pub flags(3) by (auto simp: overlay_ids_def)
    moreover have "supported ot'" using flags(1) by (simp add: supported_def)
    from get_accessible_object_ids_total [OF tree this, of folder user]
    obtain rv rc rd where "get_accessible_object_ids s folder user ot' = Some (Inr (rv, rc, rd))"
      "set rv = local_ids s folder user ot' (''view_'' @ class_name ot') \<union>
                overlay_ids s folder user ot'"
      using flags(1,2) by auto
    ultimately show ?thesis by auto
  qed
  from saved y vis show ?thesis by blast
qed

lemma ex_folder_set:
  "folder_set ex_store 20 = [21, 24]" "folder_set ex_store 21 = [22, 23]"
  "folder_set ex_store 22 = []" "folder_set ex_store 23 = []" "folder_set ex_store 24 = []"
  by (simp_all add: folder_set_def ex_store_def)

lemma ex_descendants:
  "descendants ex_store 20 = {21, 22, 23, 24}" "descendants ex_store 21 = {22, 23}"
  "descendants ex_store 22 = {}" "descendants ex_store 23 = {}" "descendants ex_store 24 = {}"
proof -
  show a: "descendants ex_store 22 = {}"
    by (simp add: descendants_unfold [of ex_store 22] ex_folder_set)
  show b: "descendants ex_store 23 = {}"
    by (simp add: descendants_unfold [of ex_store 23] ex_folder_set)
  show c: "descendants ex_store 24 = {}"
    by (simp add: descendants_unfold [of ex_store 24] ex_folder_set)
  show d: "descendants ex_store 21 = {22, 23}"
    by (simp add: descendants_unfold [of ex_store 21] ex_folder_set a b)
  show "descendants ex_store 20 = {21, 22, 23, 24}"
    by (auto simp: descendants_unfold [of ex_store 20] ex_folder_set c d)
qed

lemma ex_content_type_of:
  "content_type_of ex_store 20 = Some ROOT" "content_type_of ex_store 21 = Some DOMAIN"
  "content_type_of ex_store 22 = Some DOMAIN" "content_type_of ex_store 23 = Some ENCLAVE"
  "content_type_of ex_store 24 = Some DOMAIN"
  by (simp_all add: content_type_of_def folder_by_id_def ex_store_def)

lemma ex_get_role_assignments_8:
  "get_role_assignments ex_store (User 8) = [ra102, ra102]"
  by (simp add: get_role_assignments_def roleassignment_set_def user_groups_all_def ex_store_def
      ra100_def ra101_def ra102_def)

lemma ex_ra_flags:
  "permissions (ra_role ra102) = [''view_folder'', ''view_asset'']"
  "perimeter_folders ra102 = [23]"
  "\<not> is_recursive ra100" "is_recursive ra101" "\<not> is_recursive ra102"
  by (simp_all add: ra100_def ra101_def ra102_def reader_role_def)

lemma ex_granted_folders:
  "granted_folders ex_store 20 (User 7) ''view_asset'' = {21}"
  "granted_folders ex_store 20 (User 7) ''change_asset'' = {}"
  "granted_folders ex_store 20 (User 7) ''delete_asset'' = {}"
  "granted_folders ex_store 20 (User 8) ''view_asset'' = {23}"
  "granted_folders ex_store 20 (User 8) ''change_asset'' = {}"
  "granted_folders ex_store 20 (User 8) ''delete_asset'' = {}"
  by (auto simp: granted_folders_def scope_def ra_scope_def ex_get_role_assignments
      ex_get_role_assignments_8 ex_ra_fields ex_ra_flags ex_descendants)

lemma ex_assets_flags:
  "class_name ex_assets = ''asset''" "has_folder ex_assets" "has_is_published ex_assets"
  "distinct (map obj_id (objects ex_assets))"
  by (simp_all add: ex_assets_def asset_def)

lemma ex_located:
  "located ex_assets 21 = {33, 35}" "located ex_assets 22 = {34}" "located ex_assets 23 = {36}"
  by (auto simp: located_def objects_ids_def ex_assets_def asset_def)

lemma ex_published_ids:
  "published_ids ex_assets 20 = [31]" "published_ids ex_assets 21 = [35]"
  by (simp_all add: published_ids_def ex_assets_def asset_def)

lemma ex_get_root_folder: "get_root_folder ex_store = Some 20"
  by (simp add: get_root_folder_def ex_store_def)

theorem get_accessible_folders_refines_witness:
  "acyclic (child_rel ex_store) \<and>
   (\<exists>ids ids'.
      get_accessible_folders ex_store 20 (User 7) (Some DOMAIN) ''view_asset'' = Some ids \<and>
      set ids = {21, 22} \<and> distinct ids \<and>
      get_accessible_folders (flip_is_recursive 100 ex_store) 20 (User 7) (Some DOMAIN)
        ''view_asset'' = Some ids' \<and>
      set ids' = {21, 22})"
proof -
  have "accessible_folders_spec ex_store 20 (User 7) (Some DOMAIN) ''view_asset'' = {21, 22}"
    by (auto simp: accessible_folders_spec_def scope_def ex_get_role_assignments ex_ra_fields
        ex_descendants ex_content_type_of)
  with get_accessible_folders_refines [OF ex_store_tree, of 20 "User 7" "Some DOMAIN"
      "''view_asset''" 100] ex_store_tree
  show ?thesis by auto
qed

theorem publication_overlay_witness:
  "acyclic (child_rel ex_store) \<and> has_is_published ex_assets \<and> has_folder ex_assets \<and>
   content_type_of ex_store 21 = Some DOMAIN \<and> content_type_of ex_store 23 = Some ENCLAVE \<and>
   (\<exists>rv rc rd. get_accessible_object_ids ex_store 20 (User 7) ex_assets = Some (Inr (rv, rc, rd)) \<and>
      set rv = {33, 35, 31} \<and> set rc = {} \<and> set rd = {}) \<and>
   (\<exists>rv rc rd. get_accessible_object_ids ex_store 20 (User 8) ex_assets = Some (Inr (rv, rc, rd)) \<and>
      set rv = {36} \<and> set rc = {} \<and> set rd = {})"
proof -
  have a: "local_ids ex_store 20 (User 7) ex_assets (''view_'' @ class_name ex_assets) \<union>
           overlay_ids ex_store 20 (User 7) ex_assets = {33, 35, 31}"
    by (auto simp: local_ids_def overlay_ids_def ex_assets_flags ex_granted_folders ex_located
        ex_content_type_of ex_ancestors ex_published_ids)
  have b: "local_ids ex_store 20 (User 8) ex_assets (''view_'' @ class_name ex_assets) \<union>
           overlay_ids ex_store 20 (User 8) ex_assets = {36}"
    by (auto simp: local_ids_def overlay_ids_def ex_assets_flags ex_granted_folders ex_located
        ex_content_type_of)
  have c: "local_ids ex_store 20 (User 7) ex_assets (''change_'' @ class_name ex_assets) = {}"
    "local_ids ex_store 20 (User 7) ex_assets (''delete_'' @ class_name ex_assets) = {}"
    "local_ids ex_store 20 (User 8) ex_assets (''change_'' @ class_name ex_assets) = {}"
    "local_ids ex_store 20 (User 8) ex_assets (''delete_'' @ class_name ex_assets) = {}"
    by (simp_all add: local_ids_def ex_assets_flags ex_granted_folders)
  from publication_overlay [OF ex_store_tree ex_assets_flags(3) ex_assets_flags(2), of 20 "User 7"]
    publication_overlay [OF ex_store_tree ex_assets_flags(3) ex_assets_flags(2), of 20 "User 8"]
  show ?thesis
    unfolding a b c using ex_store_tree ex_assets_flags(2,3) ex_content_type_of(2,4) by simp
qed

theorem non_recursive_objects_absent_witness:
  "acyclic (child_rel ex_store) \<and>
   get_role_assignments ex_store (User 7) = [ra100, ra101, ra100] \<and>
   ''view_folder'' \<in> set (permissions (ra_role ra100)) \<and> \<not> is_recursive ra100 \<and>
   set (perimeter_folders ra100) = {21} \<and>
   ''view_folder'' \<notin> set (permissions (ra_role ra101)) \<and>
   22 \<in> descendants ex_store 21 \<and> distinct (map obj_id (objects ex_assets)) \<and>
   34 \<in> located ex_assets 22 \<and>
   is_access_allowed ex_store (User 7) ''view_asset'' 22 = Some True \<and>
   (\<exists>rv rc rd. get_accessible_object_ids ex_store 20 (User 7) ex_assets = Some (Inr (rv, rc, rd)) \<and>
      34 \<notin> set rv \<and> 34 \<notin> set rc \<and> 34 \<notin> set rd)"
proof -
  have sole: "\<not> is_recursive ra \<and> set (perimeter_folders ra) = {21}"
    if "ra \<in> set (get_role_assignments ex_store (User 7))"
      and "''view_folder'' \<in> set (permissions (ra_role ra))" for ra
    using that by (auto simp: ex_get_role_assignments ex_ra_fields ex_ra_flags)
  have d: "22 \<in> descendants ex_store 21" by (simp add: ex_descendants)
  have l: "34 \<in> located ex_assets 22" by (simp add: ex_located)
  have wf: "wf (parent_rel ex_store)" by (rule wf_parent_rel [OF ex_store_parents])
  have ok: "is_access_allowed ex_store (User 7) ''view_asset'' 22 = Some True"
    unfolding is_access_allowed_def is_access_allowed_loop_total [OF wf]
    by (simp add: ex_get_role_assignments ex_ra_fields rtrancl_ancestors ex_ancestors
        add_tag_permission_def)
  have "\<exists>rv rc rd.
          get_accessible_object_ids ex_store 20 (User 7) ex_assets = Some (Inr (rv, rc, rd)) \<and>
          34 \<notin> set rv \<and> 34 \<notin> set rc \<and> 34 \<notin> set rd"
    by (rule non_recursive_objects_absent [OF ex_store_tree _ d ex_assets_flags(4) l])
      (rule sole, assumption+)
  with ex_store_tree d l ok
  show ?thesis by (simp add: ex_get_role_assignments ex_ra_fields ex_ra_flags ex_assets_flags)
qed

theorem publish_in_root_folder_witness:
  "get_root_folder ex_store = Some 20 \<and> obj_folder (asset 37 20 False) = Some 20 \<and>
   has_folder ex_assets \<and> has_is_published ex_assets \<and> acyclic (child_rel ex_store) \<and>
   21 \<in> granted_folders ex_store 20 (User 7) (''view_'' @ class_name ex_assets) \<and>
   content_type_of ex_store 21 = Some DOMAIN \<and> 20 \<in> ancestors ex_store 21 \<and>
   (\<exists>ot'. save ex_store ex_assets (asset 37 20 False) = Inr ot' \<and>
      (\<exists>y \<in> set (objects ot'). obj_id y = 37 \<and> obj_folder y = Some 20 \<and> is_published y) \<and>
      (\<exists>rv rc rd. get_accessible_object_ids ex_store 20 (User 7) ot' = Some (Inr (rv, rc, rd)) \<and>
         37 \<in> set rv))"
proof -
  have a: "obj_folder (asset 37 20 False) = Some 20" "obj_id (asset 37 20 False) = 37"
    by (simp_all add: asset_def)
  have g: "21 \<in> granted_folders ex_store 20 (User 7) (''view_'' @ class_name ex_assets)"
    by (simp add: ex_assets_flags ex_granted_folders)
  have e: "content_type_of ex_store 21 \<noteq> Some ENCLAVE" by (simp add: ex_content_type_of)
  have n: "20 \<in> ancestors ex_store 21" by (simp add: ex_ancestors)
  from publish_in_root_folder [OF ex_get_root_folder a(1) ex_assets_flags(2,3),
      of 21 20 "User 7"] ex_store_tree g e n
  obtain ot' where "save ex_store ex_assets (asset 37 20 False) = Inr ot'"
    "\<exists>y \<in> set (objects ot'). obj_id y = 37 \<and> obj_folder y = Some 20 \<and> is_published y"
    "\<exists>rv rc rd. get_accessible_object_ids ex_store 20 (User 7) ot' = Some (Inr (rv, rc, rd)) \<and>
       37 \<in> set rv"
    unfolding a(2) by blast
  with ex_get_root_folder a(1) ex_assets_flags(2,3) ex_store_tree g n ex_content_type_of(2)
  show ?thesis by blast
qed

end
